theory Spec2Isabelle
  imports Main "HOL-Library.Sublist"
begin

section \<open>The job queue of \<^verbatim>\<open>job_queue.py\<close>\<close>

text \<open>
  \<^verbatim>\<open>Job\<close> is a Python dataclass: a mutable object with an identity, whose generated
  \<^verbatim>\<open>__eq__\<close> compares the five fields. The queue keeps references to jobs in a deque
  (\<^verbatim>\<open>_pending\<close>) and a list (\<^verbatim>\<open>_running\<close>) and mutates the objects through these
  references, so the model has an explicit store: \<open>heap\<close> holds the job objects, a
  reference is the position of the object in the store, and \<^verbatim>\<open>Job(...)\<close> allocates at
  the end. References are therefore numbered in the order of the \<^verbatim>\<open>enqueue\<close> calls.

  The field \<^verbatim>\<open>state\<close> is a string in the source, with the five values listed in its
  comment; \<^verbatim>\<open>worker\<close> is a reference to a \<^verbatim>\<open>DownloadWorker\<close> (a Qt object, compared
  by identity) or \<^verbatim>\<open>None\<close>. The option dictionary is kept abstract: HOL equality on
  \<open>'o\<close> stands for Python's \<^verbatim>\<open>==\<close> on dictionaries.
\<close>

datatype job_state = Queued | Running | Done | Error | Cancelled

record 'o job =
  urls :: "string list"
  opts :: 'o
  out_dir :: string
  state :: job_state
  worker :: "nat option"

text \<open>
  The signals the queue emits and the calls it makes on worker threads, in the order
  they happen. \<open>WorkerStart j w\<close> is \<^verbatim>\<open>worker.start()\<close> for the worker \<open>w\<close> built for
  job \<open>j\<close>; \<open>WorkerTerminate w\<close> is \<^verbatim>\<open>job.worker.terminate()\<close>.
\<close>

datatype signal =
    JobUpdated nat
  | Message string
  | QueueEmpty
  | WorkerStart nat nat
  | WorkerTerminate nat

record 'o job_queue =
  max_parallel :: int
  pending :: "nat list"
  running :: "nat list"
  heap :: "'o job list"
  next_worker :: nat
  out :: "signal list"

definition init :: "int \<Rightarrow> 'o job_queue" where
  "init mp = \<lparr>max_parallel = mp, pending = [], running = [], heap = [],
              next_worker = 0, out = []\<rparr>"

subsection \<open>Python's container operations on job references\<close>

text \<open>
  \<^verbatim>\<open>x in xs\<close>, \<^verbatim>\<open>xs.index(x)\<close> and \<^verbatim>\<open>xs.remove(x)\<close> compare with identity first and
  with \<^verbatim>\<open>==\<close> next, and \<^verbatim>\<open>==\<close> on two jobs is the dataclass comparison of all fields.
\<close>

definition job_eq :: "'o job list \<Rightarrow> nat \<Rightarrow> nat \<Rightarrow> bool" where
  "job_eq h a b = (a = b \<or> h ! a = h ! b)"

definition py_in :: "'o job list \<Rightarrow> nat \<Rightarrow> nat list \<Rightarrow> bool" where
  "py_in h x xs = list_ex (\<lambda>y. job_eq h y x) xs"

text \<open>The position of the first element equal to \<open>x\<close>. When there is none the result is
  \<open>length xs\<close>, where Python raises \<^verbatim>\<open>ValueError\<close>; the queue calls \<^verbatim>\<open>index\<close> only for a
  job that it has just appended or just found in the list.\<close>

definition py_index :: "'o job list \<Rightarrow> nat \<Rightarrow> nat list \<Rightarrow> nat" where
  "py_index h x xs = length (takeWhile (\<lambda>y. \<not> job_eq h y x) xs)"

text \<open>\<^verbatim>\<open>xs.remove(x)\<close> deletes the first element equal to \<open>x\<close>; \<open>None\<close> is the
  \<^verbatim>\<open>ValueError\<close> raised when there is none.\<close>

fun py_remove :: "'o job list \<Rightarrow> nat \<Rightarrow> nat list \<Rightarrow> nat list option" where
  "py_remove h x [] = None"
| "py_remove h x (y # ys) =
     (if job_eq h y x then Some ys
      else case py_remove h x ys of None \<Rightarrow> None | Some zs \<Rightarrow> Some (y # zs))"

subsection \<open>The operations\<close>

definition jobs :: "'o job_queue \<Rightarrow> nat list" where
  "jobs q = pending q @ running q"

definition emit :: "signal \<Rightarrow> 'o job_queue \<Rightarrow> 'o job_queue" where
  "emit e q = q\<lparr>out := out q @ [e]\<rparr>"

definition set_state :: "nat \<Rightarrow> job_state \<Rightarrow> 'o job_queue \<Rightarrow> 'o job_queue" where
  "set_state j st q = q\<lparr>heap := (heap q)[j := (heap q ! j)\<lparr>state := st\<rparr>]\<rparr>"

text \<open>
  One iteration of the loop of \<^verbatim>\<open>_launch_if_possible\<close>: the head of the deque is popped,
  a new worker object is built for it, the job is marked and appended to the running
  list, its position in the combined view is notified and the worker is started. The
  three \<^verbatim>\<open>connect\<close> calls route the worker's later events to \<open>handle_status\<close>,
  \<open>on_finished\<close> and the message signal; these events are the operations below.
  The loop runs the body only when the deque is not empty, so \<open>hd\<close> and \<open>tl\<close> are
  \<^verbatim>\<open>popleft\<close>.
\<close>

definition launch_one :: "'o job_queue \<Rightarrow> 'o job_queue" where
  "launch_one q =
     (let j = hd (pending q);
          w = next_worker q;
          q1 = q\<lparr>pending := tl (pending q),
                 next_worker := Suc w,
                 heap := (heap q)[j := (heap q ! j)\<lparr>worker := Some w, state := Running\<rparr>],
                 running := running q @ [j]\<rparr>;
          q2 = emit (JobUpdated (py_index (heap q1) j (jobs q1))) q1
      in emit (WorkerStart j w) q2)"

function launch_if_possible :: "'o job_queue \<Rightarrow> 'o job_queue" where
  "launch_if_possible q =
     (if pending q \<noteq> [] \<and> int (length (running q)) < max_parallel q
      then launch_if_possible (launch_one q)
      else q)"
  by pat_completeness auto
termination
  by (relation "measure (\<lambda>q. length (pending q))")
     (auto simp: launch_one_def emit_def Let_def)

declare launch_if_possible.simps [simp del]

definition enqueue :: "string list \<Rightarrow> 'o \<Rightarrow> string \<Rightarrow> 'o job_queue \<Rightarrow> 'o job_queue" where
  "enqueue u c d q =
     launch_if_possible
       (q\<lparr>heap := heap q @ [\<lparr>urls = u, opts = c, out_dir = d, state = Queued, worker = None\<rparr>],
          pending := pending q @ [length (heap q)]\<rparr>)"

text \<open>
  \<^verbatim>\<open>cancel\<close> returns at once for an index outside the combined view. The first branch
  needs the state \<open>Running\<close> and a worker (\<^verbatim>\<open>job.worker\<close> is tested for truth, and a worker
  object is true); the second needs the state \<open>Queued\<close>, and the \<^verbatim>\<open>ValueError\<close> of
  \<^verbatim>\<open>remove\<close> is caught. The notification is emitted in every case that did not return.
\<close>

definition cancel :: "int \<Rightarrow> 'o job_queue \<Rightarrow> 'o job_queue" where
  "cancel idx q =
     (if idx < 0 \<or> int (length (jobs q)) \<le> idx then q
      else
        let j = jobs q ! nat idx;
            q1 = (case (state (heap q ! j), worker (heap q ! j)) of
                    (Running, Some w) \<Rightarrow> set_state j Cancelled (emit (WorkerTerminate w) q)
                  | (Queued, _) \<Rightarrow>
                      set_state j Cancelled
                        (q\<lparr>pending := (case py_remove (heap q) j (pending q) of
                                           None \<Rightarrow> pending q
                                         | Some ps \<Rightarrow> ps)\<rparr>)
                  | _ \<Rightarrow> q)
        in emit (JobUpdated (nat idx)) q1)"

text \<open>The notification both handlers send for a job that the combined view still holds.\<close>

definition notify_tracked :: "nat \<Rightarrow> 'o job_queue \<Rightarrow> 'o job_queue" where
  "notify_tracked j q =
     (if py_in (heap q) j (jobs q) then emit (JobUpdated (py_index (heap q) j (jobs q))) q
      else q)"

definition handle_status :: "nat \<Rightarrow> string \<Rightarrow> 'o job_queue \<Rightarrow> 'o job_queue" where
  "handle_status j txt q =
     notify_tracked j
       (if prefix ''Error'' txt then emit (Message txt) (set_state j Error q) else q)"

definition on_finished :: "nat \<Rightarrow> 'o job_queue \<Rightarrow> 'o job_queue" where
  "on_finished j q =
     (let q1 = (if state (heap q ! j) \<noteq> Error \<and> state (heap q ! j) \<noteq> Cancelled
                then set_state j Done q else q);
          q2 = notify_tracked j q1;
          q3 = (if py_in (heap q2) j (running q2)
                then (case py_remove (heap q2) j (running q2) of
                        None \<Rightarrow> q2
                      | Some rs \<Rightarrow> q2\<lparr>running := rs\<rparr>)
                else q2)
      in if pending q3 = [] \<and> running q3 = [] then emit QueueEmpty q3
         else launch_if_possible q3)"

subsection \<open>Runs of the queue\<close>

text \<open>
  What reaches the queue object on the control thread: the two public calls, the
  assignment to \<^verbatim>\<open>_max_parallel\<close> made by the toolbar's combo box in \<^verbatim>\<open>gui.py\<close>
  (it assigns the field and calls nothing), and the three events of a worker. A worker
  event names the job the worker was built for; it is delivered only for a job whose
  worker has been started, since the handlers are connected at launch.
\<close>

datatype 'o op =
    Enqueue "string list" 'o string
  | Cancel int
  | SetMaxParallel int
  | WorkerLog nat string
  | WorkerStatus nat string
  | WorkerFinished nat

definition launched :: "'o job_queue \<Rightarrow> nat \<Rightarrow> bool" where
  "launched q j = (j < length (heap q) \<and> worker (heap q ! j) \<noteq> None)"

fun step :: "'o job_queue \<Rightarrow> 'o op \<Rightarrow> 'o job_queue" where
  "step q (Enqueue u c d) = enqueue u c d q"
| "step q (Cancel idx) = cancel idx q"
| "step q (SetMaxParallel n) = q\<lparr>max_parallel := n\<rparr>"
| "step q (WorkerLog j txt) = (if launched q j then emit (Message txt) q else q)"
| "step q (WorkerStatus j txt) = (if launched q j then handle_status j txt q else q)"
| "step q (WorkerFinished j) = (if launched q j then on_finished j q else q)"

definition run_ops :: "int \<Rightarrow> 'o op list \<Rightarrow> 'o job_queue" where
  "run_ops mp ops = foldl step (init mp) ops"

fun is_set_max :: "'o op \<Rightarrow> bool" where
  "is_set_max (SetMaxParallel n) = True"
| "is_set_max _ = False"

subsection \<open>Well-formed queue states\<close>

text \<open>
  What every run of the queue keeps true of the store: the references held in the deque
  and the list are allocated; a pending job has no worker and a running job has one;
  no reference is held twice; worker objects are allocated in sequence, one per launch,
  and no two jobs share one; a job in state \<open>Running\<close> has a worker and a job in state
  \<open>Queued\<close> has none.
\<close>

definition wf :: "'o job_queue \<Rightarrow> bool" where
  "wf q \<longleftrightarrow>
     (\<forall>j \<in> set (pending q). j < length (heap q) \<and> worker (heap q ! j) = None) \<and>
     (\<forall>j \<in> set (running q). j < length (heap q) \<and> worker (heap q ! j) \<noteq> None) \<and>
     distinct (pending q) \<and> distinct (running q) \<and>
     (\<forall>i < length (heap q). \<forall>w. worker (heap q ! i) = Some w \<longrightarrow> w < next_worker q) \<and>
     (\<forall>i < length (heap q). \<forall>j < length (heap q).
         worker (heap q ! i) \<noteq> None \<longrightarrow> worker (heap q ! i) = worker (heap q ! j) \<longrightarrow> i = j) \<and>
     (\<forall>i < length (heap q). state (heap q ! i) = Running \<longrightarrow> worker (heap q ! i) \<noteq> None) \<and>
     (\<forall>i < length (heap q). state (heap q ! i) = Queued \<longrightarrow> worker (heap q ! i) = None)"

subsection \<open>Capacity, admission and launch order\<close>

text \<open>The running list holds at most \<open>max_parallel\<close> jobs.\<close>

definition within_cap :: "'o job_queue \<Rightarrow> bool" where
  "within_cap q \<longleftrightarrow> int (length (running q)) \<le> max_parallel q"

text \<open>No pending job could be launched: the loop of \<open>launch_if_possible\<close> would not
  run its body once.\<close>

definition saturated :: "'o job_queue \<Rightarrow> bool" where
  "saturated q \<longleftrightarrow> pending q = [] \<or> max_parallel q \<le> int (length (running q))"

text \<open>The jobs whose workers were started, in the order of the \<^verbatim>\<open>start()\<close> calls.\<close>

fun started :: "signal list \<Rightarrow> nat list" where
  "started [] = []"
| "started (WorkerStart j w # es) = j # started es"
| "started (e # es) = started es"

text \<open>The jobs launched so far, followed by the pending ones, are in the order of their
  references, which is the order of the \<^verbatim>\<open>enqueue\<close> calls.\<close>

definition fifo :: "'o job_queue \<Rightarrow> bool" where
  "fifo q \<longleftrightarrow> sorted_wrt (<) (started (out q) @ pending q) \<and>
     (\<forall>j \<in> set (started (out q) @ pending q). j < length (heap q))"

text \<open>The first statement of \<open>on_finished\<close>, and the part before its last statement.\<close>

definition mark_done :: "nat \<Rightarrow> 'o job_queue \<Rightarrow> 'o job_queue" where
  "mark_done j q =
     (if state (heap q ! j) \<noteq> Error \<and> state (heap q ! j) \<noteq> Cancelled
      then set_state j Done q else q)"

definition finish_head :: "nat \<Rightarrow> 'o job_queue \<Rightarrow> 'o job_queue" where
  "finish_head j q =
     (let q2 = notify_tracked j (mark_done j q)
      in if py_in (heap q2) j (running q2)
         then (case py_remove (heap q2) j (running q2) of
                 None \<Rightarrow> q2
               | Some rs \<Rightarrow> q2\<lparr>running := rs\<rparr>)
         else q2)"

text \<open>The jobs that have a worker are the jobs whose worker was started.\<close>

definition log_ok :: "'o job_queue \<Rightarrow> bool" where
  "log_ok q \<longleftrightarrow> set (started (out q)) = {j. launched q j}"

text \<open>How many jobs one admission pass launches: as many as are pending, or as many as
  the running list has room for.\<close>

definition admitted :: "'o job_queue \<Rightarrow> nat" where
  "admitted q = min (length (pending q)) (nat (max_parallel q - int (length (running q))))"

text \<open>What an admission pass started in \<open>q\<close> has done when it is in \<open>q'\<close>, after \<open>k\<close>
  iterations.\<close>

definition launch_rel :: "'o job_queue \<Rightarrow> 'o job_queue \<Rightarrow> bool" where
  "launch_rel q q' \<longleftrightarrow>
     (\<exists>k \<le> length (pending q).
        pending q' = drop k (pending q) \<and>
        running q' = running q @ take k (pending q) \<and>
        started (out q') = started (out q) @ take k (pending q) \<and>
        count_list (out q') QueueEmpty = count_list (out q) QueueEmpty \<and>
        length (heap q') = length (heap q) \<and>
        max_parallel q' = max_parallel q \<and>
        (k = 0 \<or> int (length (running q)) + int k \<le> max_parallel q) \<and>
        (\<forall>i. i \<notin> set (take k (pending q)) \<longrightarrow> heap q' ! i = heap q ! i))"

subsection \<open>Example runs\<close>

text \<open>Three different jobs are enqueued with one slot, the limit is then raised to two from
  the toolbar, and the job at position 1 of the combined view is cancelled.\<close>

definition raised_limit_ops :: "unit op list" where
  "raised_limit_ops =
     [Enqueue [''a''] () ''d'', Enqueue [''b''] () ''d'', Enqueue [''c''] () ''d'',
      SetMaxParallel 2]"

text \<open>Three jobs on two slots; the first one finishes and the third takes its place, then
  the job at position 0 of the combined view is cancelled.\<close>

definition busy_ops :: "unit op list" where
  "busy_ops =
     [Enqueue [''a''] () ''d'', Enqueue [''b''] () ''d'', Enqueue [''c''] () ''d'',
      WorkerStatus 0 ''Finished'', WorkerFinished 0, Cancel 0]"

text \<open>A running job is cancelled; the error status its worker had emitted arrives next.\<close>

definition late_status_ops :: "unit op list" where
  "late_status_ops =
     [Enqueue [''a''] () ''d'', Cancel 0, WorkerStatus 0 ''Error: x'']"

text \<open>The same download enqueued three times on one slot; the job at position 1 of the
  combined view is cancelled, and the running job ends.\<close>

definition duplicate_ops :: "unit op list" where
  "duplicate_ops =
     [Enqueue [''a''] () ''d'', Enqueue [''a''] () ''d'', Enqueue [''a''] () ''d'',
      Cancel 1, WorkerStatus 0 ''Finished'', WorkerFinished 0]"

text \<open>Two jobs on one slot: the first finishes and the second is launched; the second
  then reports an error.\<close>

definition drain_ops :: "unit op list" where
  "drain_ops = [Enqueue [''a''] () ''d'', Enqueue [''b''] () ''d'',
      WorkerStatus 0 ''Finished'', WorkerFinished 0, WorkerStatus (Suc 0) ''Error: x'']"

section \<open>The worker of \<^verbatim>\<open>worker.py\<close>\<close>

text \<open>
  A Python \<^verbatim>\<open>str\<close> is modelled by a HOL string, a list of 8-bit characters read as the
  code points below 256. A Python \<^verbatim>\<open>float\<close> obtained from text is modelled by the decimal
  number the text denotes: \<open>Finite neg m e\<close> stands for the double nearest to
  \<open>m * 10 ^ e\<close>, negated when \<open>neg\<close> holds, so \<open>Finite False 0 0\<close> is \<^verbatim>\<open>0.0\<close> and
  \<open>Finite False 42 0\<close> is \<^verbatim>\<open>42.0\<close>.
\<close>

datatype pyfloat = Finite bool nat int | Infinity bool | NaN

subsection \<open>The builtins \<^verbatim>\<open>str.strip\<close> and \<^verbatim>\<open>float\<close>\<close>

text \<open>The characters below 256 for which \<^verbatim>\<open>str.isspace\<close> holds.\<close>

definition is_space :: "char \<Rightarrow> bool" where
  "is_space c = ((of_char c :: nat) \<in> {9, 10, 11, 12, 13, 28, 29, 30, 31, 32, 133, 160})"

definition strip :: "string \<Rightarrow> string" where
  "strip s = rev (dropWhile is_space (rev (dropWhile is_space s)))"

definition is_digit :: "char \<Rightarrow> bool" where
  "is_digit c = (48 \<le> (of_char c :: nat) \<and> (of_char c :: nat) \<le> 57)"

definition digits_val :: "string \<Rightarrow> nat" where
  "digits_val ds = foldl (\<lambda>n c. 10 * n + ((of_char c :: nat) - 48)) 0 ds"

text \<open>
  \<^verbatim>\<open>float\<close> accepts single underscores between digits: it copies the text without them,
  failing when an underscore does not follow a digit, is not followed by one, or ends
  the text. The first argument is the previous character.
\<close>

fun drop_underscores :: "char \<Rightarrow> string \<Rightarrow> string option" where
  "drop_underscores prev [] = (if prev = CHR ''_'' then None else Some [])"
| "drop_underscores prev (c # cs) =
     (if c = CHR ''_'' then (if is_digit prev then drop_underscores c cs else None)
      else if prev = CHR ''_'' \<and> \<not> is_digit c then None
      else map_option ((#) c) (drop_underscores c cs))"

definition to_lower :: "char \<Rightarrow> char" where
  "to_lower c = (if 65 \<le> (of_char c :: nat) \<and> (of_char c :: nat) \<le> 90
                 then char_of ((of_char c :: nat) + 32) else c)"

text \<open>
  A decimal number without its sign: digits with at most one point among them and at
  least one digit, then an optional exponent, which needs at least one digit. The
  result is the number of all the digits and the power of ten.
\<close>

definition parse_exponent :: "string \<Rightarrow> int option" where
  "parse_exponent t =
     (let (neg, ds) = (case t of
                         c # u \<Rightarrow> if c = CHR ''-'' then (True, u)
                                  else if c = CHR ''+'' then (False, u) else (False, t)
                       | [] \<Rightarrow> (False, t))
      in if ds \<noteq> [] \<and> list_all is_digit ds
         then Some (if neg then - int (digits_val ds) else int (digits_val ds))
         else None)"

definition parse_decimal :: "string \<Rightarrow> (nat \<times> int) option" where
  "parse_decimal s =
     (let ip = takeWhile is_digit s;
          r1 = dropWhile is_digit s;
          (fp, r2) = (case r1 of
                        c # t \<Rightarrow> if c = CHR ''.'' then (takeWhile is_digit t, dropWhile is_digit t)
                                 else ([], r1)
                      | [] \<Rightarrow> ([], r1))
      in if ip = [] \<and> fp = [] then None
         else case r2 of
                [] \<Rightarrow> Some (digits_val (ip @ fp), - int (length fp))
              | c # t \<Rightarrow>
                  if c = CHR ''e'' \<or> c = CHR ''E''
                  then map_option (\<lambda>x. (digits_val (ip @ fp), x - int (length fp)))
                         (parse_exponent t)
                  else None)"

text \<open>\<^verbatim>\<open>float(s)\<close> for a string; \<open>None\<close> is the \<^verbatim>\<open>ValueError\<close>, the only exception
  the conversion of a string raises.\<close>

definition py_float :: "string \<Rightarrow> pyfloat option" where
  "py_float s =
     (case (if CHR ''_'' \<in> set (strip s) then drop_underscores (CHR 0x00) (strip s)
            else Some (strip s)) of
        None \<Rightarrow> None
      | Some t \<Rightarrow>
          (let (neg, u) = (case t of
                             c # r \<Rightarrow> if c = CHR ''-'' then (True, r)
                                      else if c = CHR ''+'' then (False, r) else (False, t)
                           | [] \<Rightarrow> (False, t))
           in if map to_lower u = ''inf'' \<or> map to_lower u = ''infinity'' then Some (Infinity neg)
              else if map to_lower u = ''nan'' then Some NaN
              else map_option (\<lambda>(m, e). Finite neg m e) (parse_decimal u)))"

subsection \<open>The progress hook\<close>

text \<open>
  \<^verbatim>\<open>_ANSI_RE.sub("", s)\<close> with the pattern \<^verbatim>\<open>\x1b\[[0-9;]*m\<close>: scanning from the left, each
  escape character followed by a bracket, a longest run of digits and semicolons and
  the letter m is deleted; any other character is kept.
\<close>

definition is_param :: "char \<Rightarrow> bool" where
  "is_param c = (is_digit c \<or> c = CHR '';'')"

function strip_ansi :: "string \<Rightarrow> string" where
  "strip_ansi [] = []"
| "strip_ansi (c # cs) =
     (if c = CHR 0x1B \<and> cs \<noteq> [] \<and> hd cs = CHR ''['' \<and>
         dropWhile is_param (tl cs) \<noteq> [] \<and> hd (dropWhile is_param (tl cs)) = CHR ''m''
      then strip_ansi (tl (dropWhile is_param (tl cs)))
      else c # strip_ansi cs)"
  by pat_completeness auto
termination
proof (relation "measure length")
  fix c :: char and cs :: string
  have "length (dropWhile is_param (tl cs)) \<le> length (tl cs)"
    by (rule length_dropWhile_le)
  then show "(tl (dropWhile is_param (tl cs)), c # cs) \<in> measure length"
    by simp
qed simp_all

text \<open>The percentage that \<^verbatim>\<open>_hook\<close> computes from the text under \<^verbatim>\<open>_percent_str\<close>.\<close>

definition pct_raw :: "string \<Rightarrow> string" where
  "pct_raw s = strip_ansi (filter (\<lambda>c. c \<noteq> CHR ''%'') s)"

definition hook_pct :: "string \<Rightarrow> pyfloat" where
  "hook_pct s =
     (if strip (pct_raw s) = [] then Finite False 0 0
      else case py_float (strip (pct_raw s)) of
             None \<Rightarrow> Finite False 0 0
           | Some v \<Rightarrow> v)"

text \<open>
  The dictionary passed to the hook, read through \<^verbatim>\<open>data.get\<close>: each of the three keys
  may be missing. \<^verbatim>\<open>Path(...).name\<close> belongs to \<^verbatim>\<open>pathlib\<close> and is a parameter. The result
  is the pair emitted on the progress signal, if any.
\<close>

record hook_data =
  status :: "string option"
  percent_str :: "string option"
  filename :: "string option"

definition hook :: "(string \<Rightarrow> string) \<Rightarrow> hook_data \<Rightarrow> (pyfloat \<times> string) option" where
  "hook path_name d =
     (if status d = Some ''downloading''
      then Some (hook_pct (case percent_str d of None \<Rightarrow> [] | Some s \<Rightarrow> s),
                 path_name (case filename d of None \<Rightarrow> [] | Some f \<Rightarrow> f))
      else None)"

subsection \<open>The thread's entry point\<close>

text \<open>
  What the download call of the engine does, as far as \<^verbatim>\<open>run\<close> can tell: it calls the
  progress hook and the three methods of the logger, and it returns or raises. A raised
  object has a text (\<^verbatim>\<open>str(exc)\<close>) and is an instance of \<^verbatim>\<open>Exception\<close> or not
  (\<^verbatim>\<open>SystemExit\<close>, \<^verbatim>\<open>KeyboardInterrupt\<close> and \<^verbatim>\<open>GeneratorExit\<close> are not).
\<close>

record py_exc =
  is_exception :: bool
  text_of :: string

datatype engine_call =
    ProgressHook hook_data
  | LoggerDebug string
  | LoggerWarning string
  | LoggerError string

datatype engine_result = Returns | Raises py_exc

datatype worker_signal =
    ProgressSignal pyfloat string
  | StatusSignal string
  | LogSignal string

fun on_call :: "(string \<Rightarrow> string) \<Rightarrow> engine_call \<Rightarrow> worker_signal list" where
  "on_call path_name (ProgressHook d) =
     (case hook path_name d of None \<Rightarrow> [] | Some (p, n) \<Rightarrow> [ProgressSignal p n])"
| "on_call path_name (LoggerDebug msg) = [LogSignal msg]"
| "on_call path_name (LoggerWarning msg) = [LogSignal msg]"
| "on_call path_name (LoggerError msg) = [LogSignal msg]"

text \<open>
  \<^verbatim>\<open>run\<close>: the signals emitted, in order, and the exception that leaves the method, if
  any. The \<^verbatim>\<open>except\<close> clause names \<^verbatim>\<open>Exception\<close>.
\<close>

definition run :: "(string \<Rightarrow> string) \<Rightarrow> engine_call list \<Rightarrow> engine_result
    \<Rightarrow> worker_signal list \<times> py_exc option" where
  "run path_name calls res =
     (case res of
        Returns \<Rightarrow> (concat (map (on_call path_name) calls) @ [StatusSignal ''Finished''], None)
      | Raises exc \<Rightarrow>
          if is_exception exc
          then (concat (map (on_call path_name) calls) @ [StatusSignal (''Error: '' @ text_of exc)],
                None)
          else (concat (map (on_call path_name) calls), Some exc))"

text \<open>The texts emitted on the status signal, in order.\<close>

fun statuses :: "worker_signal list \<Rightarrow> string list" where
  "statuses [] = []"
| "statuses (StatusSignal t # ss) = t # statuses ss"
| "statuses (s # ss) = statuses ss"

section \<open>Invariants of the queue\<close>

lemma launch_if_possible_rule:
  assumes "P q"
    and "\<And>q. P q \<Longrightarrow> pending q \<noteq> [] \<Longrightarrow> int (length (running q)) < max_parallel q \<Longrightarrow> P (launch_one q)"
  shows "P (launch_if_possible q)"
  using assms(1)
proof (induction q rule: launch_if_possible.induct)
  case (1 q)
  show ?case
  proof (cases "pending q \<noteq> [] \<and> int (length (running q)) < max_parallel q")
    case True
    then have "P (launch_one q)" using assms(2) "1.prems" by blast
    then have "P (launch_if_possible (launch_one q))" using "1.IH" True by blast
    then show ?thesis using True by (subst launch_if_possible.simps) simp
  next
    case False
    then show ?thesis using "1.prems" by (subst launch_if_possible.simps) auto
  qed
qed

lemma wf_init: "wf (init mp)"
  by (simp add: wf_def init_def)

lemma wf_emit: "wf (emit e q) = wf q"
  by (simp add: wf_def emit_def)

lemma worker_set_state: "worker (heap (set_state j st q) ! i) = worker (heap q ! i)"
  by (cases "j < length (heap q)"; cases "i = j") (simp_all add: set_state_def list_update_beyond)

lemma length_set_state: "length (heap (set_state j st q)) = length (heap q)"
  by (simp add: set_state_def)

lemma state_set_state:
  "state (heap (set_state j st q) ! i) = (if i = j \<and> j < length (heap q) then st else state (heap q ! i))"
  by (cases "j < length (heap q)"; cases "i = j") (simp_all add: set_state_def list_update_beyond)

lemma other_set_state:
  "pending (set_state j st q) = pending q" "running (set_state j st q) = running q"
  "next_worker (set_state j st q) = next_worker q" "max_parallel (set_state j st q) = max_parallel q"
  "out (set_state j st q) = out q"
  by (simp_all add: set_state_def)

lemma wf_set_state:
  assumes "wf q" "st \<noteq> Running" "st \<noteq> Queued"
  shows "wf (set_state j st q)"
  using assms
  unfolding wf_def worker_set_state length_set_state state_set_state other_set_state
  by auto

lemma wf_launch_one:
  assumes "wf q" "pending q \<noteq> []"
  shows "wf (launch_one q)"
proof -
  obtain j ps where p: "pending q = j # ps" using assms(2) by (cases "pending q") auto
  define h' where "h' = (heap q)[j := (heap q ! j)\<lparr>worker := Some (next_worker q), state := Running\<rparr>]"
  have j: "j < length (heap q)" "worker (heap q ! j) = None" "j \<notin> set ps" "distinct ps"
    using assms(1) p by (auto simp: wf_def)
  have jr: "j \<notin> set (running q)" using assms(1) j by (auto simp: wf_def)
  have old: "\<And>i w. i < length (heap q) \<Longrightarrow> worker (heap q ! i) = Some w \<Longrightarrow> w < next_worker q"
    using assms(1) by (auto simp: wf_def)
  have inj: "\<And>i k. i < length (heap q) \<Longrightarrow> k < length (heap q) \<Longrightarrow> worker (heap q ! i) \<noteq> None
      \<Longrightarrow> worker (heap q ! i) = worker (heap q ! k) \<Longrightarrow> i = k"
    using assms(1) unfolding wf_def by blast
  have len: "length h' = length (heap q)" by (simp add: h'_def)
  have wj: "worker (h' ! j) = Some (next_worker q)" "state (h' ! j) = Running"
    using j by (simp_all add: h'_def)
  have wo: "\<And>i. i \<noteq> j \<Longrightarrow> h' ! i = heap q ! i" by (simp add: h'_def)
  have eq: "launch_one q =
    q\<lparr>pending := ps, next_worker := Suc (next_worker q), heap := h', running := running q @ [j],
      out := out q @ [JobUpdated (py_index h' j (ps @ running q @ [j])), WorkerStart j (next_worker q)]\<rparr>"
    by (simp add: launch_one_def Let_def emit_def p h'_def jobs_def)
  have c1: "\<forall>k \<in> set ps. k < length h' \<and> worker (h' ! k) = None"
  proof
    fix k assume k: "k \<in> set ps"
    then have "k \<noteq> j" using j by auto
    moreover have "k < length (heap q) \<and> worker (heap q ! k) = None"
      using assms(1) p k by (simp add: wf_def)
    ultimately show "k < length h' \<and> worker (h' ! k) = None" using wo[of k] len by simp
  qed
  have c2: "\<forall>k \<in> set (running q @ [j]). k < length h' \<and> worker (h' ! k) \<noteq> None"
  proof
    fix k assume k: "k \<in> set (running q @ [j])"
    show "k < length h' \<and> worker (h' ! k) \<noteq> None"
    proof (cases "k = j")
      case True
      then show ?thesis using wj j len by simp
    next
      case False
      then have "k \<in> set (running q)" using k by simp
      then have "k < length (heap q) \<and> worker (heap q ! k) \<noteq> None"
        using assms(1) unfolding wf_def by blast
      then show ?thesis using wo[of k] False len by simp
    qed
  qed
  have c3: "distinct ps" "distinct (running q @ [j])"
    using assms(1) j jr by (auto simp: wf_def)
  have c4: "\<forall>i < length h'. \<forall>w. worker (h' ! i) = Some w \<longrightarrow> w < Suc (next_worker q)"
  proof (intro allI impI)
    fix i w assume "i < length h'" "worker (h' ! i) = Some w"
    then show "w < Suc (next_worker q)"
      using old[of i w] wo[of i] wj len by (cases "i = j") auto
  qed
  have c5: "\<forall>i < length h'. \<forall>k < length h'.
         worker (h' ! i) \<noteq> None \<longrightarrow> worker (h' ! i) = worker (h' ! k) \<longrightarrow> i = k"
  proof (intro allI impI)
    fix i k assume a: "i < length h'" "k < length h'" "worker (h' ! i) \<noteq> None"
      "worker (h' ! i) = worker (h' ! k)"
    show "i = k"
    proof (cases "i = j")
      case True
      show ?thesis
      proof (rule ccontr)
        assume "i \<noteq> k"
        then have "worker (heap q ! k) = Some (next_worker q)" using a True wj wo[of k] by auto
        then show False using old[of k "next_worker q"] a len by auto
      qed
    next
      case False
      show ?thesis
      proof (cases "k = j")
        case True
        then have "worker (heap q ! i) = Some (next_worker q)" using a False wj wo[of i] by auto
        then show ?thesis using old[of i "next_worker q"] a len by auto
      next
        case kf: False
        then show ?thesis using a False wo[of i] wo[of k] inj[of i k] len by auto
      qed
    qed
  qed
  have c6: "\<forall>i < length h'. state (h' ! i) = Running \<longrightarrow> worker (h' ! i) \<noteq> None"
  proof (intro allI impI)
    fix i assume "i < length h'" "state (h' ! i) = Running"
    then show "worker (h' ! i) \<noteq> None"
      using assms(1) wo[of i] wj len unfolding wf_def by (cases "i = j") auto
  qed
  have c7: "\<forall>i < length h'. state (h' ! i) = Queued \<longrightarrow> worker (h' ! i) = None"
  proof (intro allI impI)
    fix i assume "i < length h'" "state (h' ! i) = Queued"
    then show "worker (h' ! i) = None"
      using assms(1) wo[of i] wj len unfolding wf_def by (cases "i = j") auto
  qed
  show ?thesis
    unfolding eq wf_def using c1 c2 c3 c4 c5 c6 c7 by simp
qed

lemma wf_launch_if_possible: "wf q \<Longrightarrow> wf (launch_if_possible q)"
  by (rule launch_if_possible_rule[where P = wf]) (auto intro: wf_launch_one)

lemma py_remove_Some:
  "py_remove h x xs = Some ys \<Longrightarrow> \<exists>y \<in> set xs. job_eq h y x \<and> ys = remove1 y xs"
proof (induction xs arbitrary: ys)
  case Nil
  then show ?case by simp
next
  case (Cons a xs)
  show ?case
  proof (cases "job_eq h a x")
    case True
    then show ?thesis using Cons.prems by auto
  next
    case False
    then obtain zs where zs: "py_remove h x xs = Some zs" "ys = a # zs"
      using Cons.prems by (auto split: option.splits)
    then obtain y where y: "y \<in> set xs" "job_eq h y x" "zs = remove1 y xs"
      using Cons.IH by blast
    then have "y \<noteq> a" using False by auto
    then show ?thesis using y zs by auto
  qed
qed

lemma py_remove_None: "py_remove h x xs = None \<longleftrightarrow> \<not> py_in h x xs"
  by (induction xs) (auto simp: py_in_def split: option.splits)

lemma py_index_less: "py_in h x xs \<Longrightarrow> py_index h x xs < length xs"
  unfolding py_index_def py_in_def by (induction xs) auto

lemma py_in_member: "x \<in> set xs \<Longrightarrow> py_in h x xs"
  by (auto simp: py_in_def list_ex_iff job_eq_def)

lemma launch_one_index_found:
  "py_index (heap (launch_one q)) (hd (pending q)) (jobs (launch_one q))
     < length (jobs (launch_one q))"
  by (rule py_index_less, rule py_in_member) (simp add: launch_one_def Let_def jobs_def emit_def)

lemma py_in_exact:
  assumes "\<forall>y \<in> set xs. job_eq h y x \<longrightarrow> y = x"
  shows "py_in h x xs \<longleftrightarrow> x \<in> set xs"
  using assms by (auto simp: py_in_def list_ex_iff job_eq_def)

lemma py_remove_exact:
  assumes "\<forall>y \<in> set xs. job_eq h y x \<longrightarrow> y = x" "x \<in> set xs"
  shows "py_remove h x xs = Some (remove1 x xs)"
  using assms
  by (induction xs) (auto simp: job_eq_def)

lemma wf_pending_update:
  assumes "wf q" "set ps \<subseteq> set (pending q)" "distinct ps"
  shows "wf (q\<lparr>pending := ps\<rparr>)"
  using assms unfolding wf_def by auto

lemma wf_running_update:
  assumes "wf q" "set rs \<subseteq> set (running q)" "distinct rs"
  shows "wf (q\<lparr>running := rs\<rparr>)"
  using assms unfolding wf_def by auto

lemma wf_max_parallel_update: "wf (q\<lparr>max_parallel := n\<rparr>) = wf q"
  by (simp add: wf_def)

lemma wf_enqueue:
  assumes "wf q"
  shows "wf (enqueue u c d q)"
proof -
  let ?n = "length (heap q)"
  let ?q = "q\<lparr>heap := heap q @ [\<lparr>urls = u, opts = c, out_dir = d, state = Queued, worker = None\<rparr>],
          pending := pending q @ [?n]\<rparr>"
  have "wf ?q"
    using assms unfolding wf_def
    by (auto simp: nth_append less_Suc_eq)
  then show ?thesis unfolding enqueue_def by (rule wf_launch_if_possible)
qed

lemma wf_cancel:
  assumes "wf q"
  shows "wf (cancel idx q)"
proof (cases "idx < 0 \<or> int (length (jobs q)) \<le> idx")
  case True
  then show ?thesis using assms by (simp add: cancel_def)
next
  case False
  define j where "j = jobs q ! nat idx"
  have rem: "wf (q\<lparr>pending := (case py_remove (heap q) j (pending q) of
                                           None \<Rightarrow> pending q
                                         | Some ps \<Rightarrow> ps)\<rparr>)"
  proof (cases "py_remove (heap q) j (pending q)")
    case None
    then show ?thesis using assms by simp
  next
    case (Some ps)
    then obtain y where "ps = remove1 y (pending q)" using py_remove_Some by blast
    then have "set ps \<subseteq> set (pending q)" "distinct ps"
      using assms by (auto simp: wf_def set_remove1_subset)
    then show ?thesis using Some assms by (simp add: wf_pending_update)
  qed
  show ?thesis
    using False assms rem unfolding cancel_def Let_def j_def[symmetric]
    by (auto simp: wf_emit wf_set_state split: job_state.splits option.splits)
qed

lemma wf_notify_tracked: "wf (notify_tracked j q) = wf q"
  by (simp add: notify_tracked_def wf_emit)

lemma wf_handle_status: "wf q \<Longrightarrow> wf (handle_status j txt q)"
  by (simp add: handle_status_def wf_notify_tracked wf_emit wf_set_state)

text \<open>In a well-formed state equality of a launched job with a running one is identity.\<close>

lemma wf_running_eq:
  assumes "wf q" "launched q j" "y \<in> set (running q)" "job_eq (heap q) y j"
  shows "y = j"
proof (rule ccontr)
  assume ne: "y \<noteq> j"
  have y: "y < length (heap q)" "worker (heap q ! y) \<noteq> None"
    using assms(1,3) unfolding wf_def by blast+
  have "heap q ! y = heap q ! j" using assms(4) ne by (simp add: job_eq_def)
  then have "worker (heap q ! y) = worker (heap q ! j)" by simp
  moreover have "j < length (heap q)" using assms(2) by (simp add: launched_def)
  ultimately show False using assms(1) y ne unfolding wf_def by blast
qed

lemma launched_set_state: "launched (set_state j st q) i = launched q i"
  by (simp add: launched_def worker_set_state length_set_state)

lemma launched_notify: "launched (notify_tracked j q) i = launched q i"
  by (simp add: launched_def notify_tracked_def emit_def)

lemma wf_on_finished:
  assumes "wf q" "launched q j"
  shows "wf (on_finished j q)"
proof -
  define q1 where "q1 = (if state (heap q ! j) \<noteq> Error \<and> state (heap q ! j) \<noteq> Cancelled
                then set_state j Done q else q)"
  define q2 where "q2 = notify_tracked j q1"
  define q3 where "q3 = (if py_in (heap q2) j (running q2)
                then (case py_remove (heap q2) j (running q2) of
                        None \<Rightarrow> q2
                      | Some rs \<Rightarrow> q2\<lparr>running := rs\<rparr>)
                else q2)"
  have w1: "wf q1" using assms by (simp add: q1_def wf_set_state)
  then have w2: "wf q2" by (simp add: q2_def wf_notify_tracked)
  have w3: "wf q3"
  proof (cases "py_remove (heap q2) j (running q2)")
    case None
    then show ?thesis using w2 by (simp add: q3_def)
  next
    case (Some rs)
    then obtain y where "rs = remove1 y (running q2)" using py_remove_Some by blast
    then have "set rs \<subseteq> set (running q2)" "distinct rs"
      using w2 by (auto simp: wf_def set_remove1_subset)
    then show ?thesis using Some w2 by (simp add: q3_def wf_running_update)
  qed
  have "on_finished j q = (if pending q3 = [] \<and> running q3 = [] then emit QueueEmpty q3
         else launch_if_possible q3)"
    unfolding on_finished_def q3_def q2_def q1_def Let_def by (rule refl)
  then show ?thesis using w3 by (simp add: wf_emit wf_launch_if_possible)
qed

lemma wf_step: "wf q \<Longrightarrow> wf (step q x)"
  by (cases x) (simp_all add: wf_enqueue wf_cancel wf_max_parallel_update wf_emit
      wf_handle_status wf_on_finished)

lemma wf_foldl: "wf q \<Longrightarrow> wf (foldl step q xs)"
  by (induction xs arbitrary: q) (simp_all add: wf_step)

lemma wf_run_ops: "wf (run_ops mp xs)"
  by (simp add: run_ops_def wf_foldl wf_init)

lemma fields_emit [simp]:
  "pending (emit e q) = pending q" "running (emit e q) = running q"
  "heap (emit e q) = heap q" "max_parallel (emit e q) = max_parallel q"
  "next_worker (emit e q) = next_worker q" "out (emit e q) = out q @ [e]"
  by (simp_all add: emit_def)

lemma fields_notify_tracked [simp]:
  "pending (notify_tracked j q) = pending q" "running (notify_tracked j q) = running q"
  "heap (notify_tracked j q) = heap q" "max_parallel (notify_tracked j q) = max_parallel q"
  "next_worker (notify_tracked j q) = next_worker q"
  by (simp_all add: notify_tracked_def)

lemma fields_cancel:
  "running (cancel idx q) = running q" "max_parallel (cancel idx q) = max_parallel q"
  "length (heap (cancel idx q)) = length (heap q)"
  by (auto simp: cancel_def Let_def other_set_state length_set_state
      split: job_state.splits option.splits)

lemma fields_handle_status:
  "running (handle_status j txt q) = running q" "pending (handle_status j txt q) = pending q"
  "max_parallel (handle_status j txt q) = max_parallel q"
  "length (heap (handle_status j txt q)) = length (heap q)"
  by (simp_all add: handle_status_def other_set_state length_set_state)

lemma max_parallel_launch_one: "max_parallel (launch_one q) = max_parallel q"
  by (simp add: launch_one_def Let_def)

lemma max_parallel_launch_if_possible: "max_parallel (launch_if_possible q) = max_parallel q"
  by (rule launch_if_possible_rule[where P = "\<lambda>q'. max_parallel q' = max_parallel q"])
     (simp_all add: max_parallel_launch_one)

lemma within_cap_launch_if_possible:
  "within_cap q \<Longrightarrow> within_cap (launch_if_possible q)"
  by (rule launch_if_possible_rule[where P = within_cap])
     (simp_all add: within_cap_def launch_one_def Let_def)

lemma saturated_launch_if_possible: "saturated (launch_if_possible q)"
proof (induction q rule: launch_if_possible.induct)
  case (1 q)
  show ?case
    using 1 by (subst launch_if_possible.simps) (auto simp: saturated_def)
qed

lemma launch_if_possible_saturated: "saturated q \<Longrightarrow> launch_if_possible q = q"
  by (subst launch_if_possible.simps) (auto simp: saturated_def)

lemma on_finished_unfold:
  "on_finished j q =
     (if pending (finish_head j q) = [] \<and> running (finish_head j q) = []
      then emit QueueEmpty (finish_head j q)
      else launch_if_possible (finish_head j q))"
  unfolding on_finished_def finish_head_def mark_done_def Let_def by (rule refl)

lemma fields_finish_head:
  "max_parallel (finish_head j q) = max_parallel q" "pending (finish_head j q) = pending q"
  "length (heap (finish_head j q)) = length (heap q)"
  by (auto simp: finish_head_def mark_done_def Let_def other_set_state length_set_state
      split: option.splits)

lemma running_finish_head:
  "running (finish_head j q) = running q \<or> (\<exists>y. running (finish_head j q) = remove1 y (running q))"
  by (auto simp: finish_head_def mark_done_def Let_def other_set_state
      split: option.splits dest: py_remove_Some)

lemma within_cap_on_finished:
  assumes "within_cap q"
  shows "within_cap (on_finished j q)"
proof -
  have "length (running (finish_head j q)) \<le> length (running q)"
    using running_finish_head[of j q] by (auto simp: length_remove1)
  then have "within_cap (finish_head j q)"
    using assms by (simp add: within_cap_def fields_finish_head)
  then show ?thesis
    by (simp add: on_finished_unfold within_cap_launch_if_possible) (simp add: within_cap_def)
qed

lemma within_cap_enqueue:
  assumes "within_cap q"
  shows "within_cap (enqueue u c d q)"
  unfolding enqueue_def
  by (rule within_cap_launch_if_possible) (use assms in \<open>simp add: within_cap_def\<close>)

lemma within_cap_step:
  assumes "within_cap q" "\<not> is_set_max x"
  shows "within_cap (step q x)"
  using assms
  by (cases x) (auto simp: within_cap_on_finished within_cap_enqueue,
                auto simp: within_cap_def fields_cancel fields_handle_status)

lemma max_parallel_on_finished: "max_parallel (on_finished j q) = max_parallel q"
  by (simp add: on_finished_unfold max_parallel_launch_if_possible fields_finish_head)

lemma max_parallel_step: "\<not> is_set_max x \<Longrightarrow> max_parallel (step q x) = max_parallel q"
  by (cases x) (simp_all add: enqueue_def max_parallel_launch_if_possible fields_cancel
      fields_handle_status max_parallel_on_finished)

lemma saturated_cancel: "saturated q \<Longrightarrow> saturated (cancel idx q)"
  by (auto simp: saturated_def cancel_def Let_def other_set_state split: job_state.splits option.splits)

lemma saturated_on_finished: "saturated (on_finished j q)"
  unfolding on_finished_unfold
  by (simp add: saturated_launch_if_possible) (simp add: saturated_def)

lemma saturated_step:
  assumes "saturated q" "\<not> is_set_max x"
  shows "saturated (step q x)"
  using assms
  by (cases x) (auto simp: enqueue_def saturated_launch_if_possible saturated_cancel
        saturated_on_finished,
      auto simp: saturated_def fields_handle_status)

lemma fixed_foldl:
  assumes "\<forall>x \<in> set xs. \<not> is_set_max x"
  shows "max_parallel (foldl step q xs) = max_parallel q
     \<and> (within_cap q \<longrightarrow> within_cap (foldl step q xs))
     \<and> (saturated q \<longrightarrow> saturated (foldl step q xs))"
  using assms
  by (induction xs arbitrary: q) (simp_all add: max_parallel_step within_cap_step saturated_step)

lemma started_append: "started (xs @ ys) = started xs @ started ys"
  by (induction xs rule: started.induct) simp_all

lemma launch_one_effect:
  assumes "pending q = j # ps"
  shows "pending (launch_one q) = ps" "running (launch_one q) = running q @ [j]"
    "started (out (launch_one q)) = started (out q) @ [j]"
    "count_list (out (launch_one q)) QueueEmpty = count_list (out q) QueueEmpty"
    "length (heap (launch_one q)) = length (heap q)"
    "i \<noteq> j \<Longrightarrow> heap (launch_one q) ! i = heap q ! i"
  using assms by (simp_all add: launch_one_def Let_def started_append)

lemma launch_rel_refl: "launch_rel q q"
  unfolding launch_rel_def by (rule exI[of _ 0]) simp

lemma launch_rel_step:
  assumes "launch_rel q q'" "pending q' \<noteq> []" "int (length (running q')) < max_parallel q'"
  shows "launch_rel q (launch_one q')"
proof -
  obtain k where k: "k \<le> length (pending q)"
    "pending q' = drop k (pending q)"
    "running q' = running q @ take k (pending q)"
    "started (out q') = started (out q) @ take k (pending q)"
    "count_list (out q') QueueEmpty = count_list (out q) QueueEmpty"
    "length (heap q') = length (heap q)"
    "\<forall>i. i \<notin> set (take k (pending q)) \<longrightarrow> heap q' ! i = heap q ! i"
    "max_parallel q' = max_parallel q"
    using assms(1) unfolding launch_rel_def by blast
  have lt: "k < length (pending q)" using assms(2) k by (cases "k < length (pending q)") auto
  then have p: "pending q' = (pending q ! k) # drop (Suc k) (pending q)"
    using k(2) by (simp add: Cons_nth_drop_Suc)
  have cap: "int (length (running q)) + int (Suc k) \<le> max_parallel q"
    using assms(3) k(3,8) lt by simp
  have tk: "take (Suc k) (pending q) = take k (pending q) @ [pending q ! k]"
    using lt by (simp add: take_Suc_conv_app_nth)
  note e = launch_one_effect[OF p]
  have "\<forall>i. i \<notin> set (take (Suc k) (pending q)) \<longrightarrow> heap (launch_one q') ! i = heap q ! i"
    using e(6) k(7) tk by auto
  then show ?thesis
    unfolding launch_rel_def
    using lt e(1-5) k(3-6,8) tk cap
    by (intro exI[of _ "Suc k"]) (simp add: max_parallel_launch_one)
qed

lemma launch_if_possible_effect: "launch_rel q (launch_if_possible q)"
  by (rule launch_if_possible_rule[where P = "launch_rel q"])
     (simp_all add: launch_rel_refl launch_rel_step)

lemma sorted_wrt_remove1: "sorted_wrt P xs \<Longrightarrow> sorted_wrt P (remove1 y xs)"
proof (induction xs)
  case Nil
  then show ?case by simp
next
  case (Cons a xs)
  then show ?case using set_remove1_subset[of y xs] by auto
qed

lemma fifo_init: "fifo (init mp)"
  by (simp add: fifo_def init_def)

lemma fifo_launch_if_possible:
  assumes "fifo q"
  shows "fifo (launch_if_possible q)"
proof -
  obtain k where k: "pending (launch_if_possible q) = drop k (pending q)"
    "started (out (launch_if_possible q)) = started (out q) @ take k (pending q)"
    "length (heap (launch_if_possible q)) = length (heap q)"
    using launch_if_possible_effect[of q] unfolding launch_rel_def by blast
  show ?thesis using assms unfolding fifo_def k by simp
qed

lemma fifo_enqueue:
  assumes "fifo q"
  shows "fifo (enqueue u c d q)"
  unfolding enqueue_def
proof (rule fifo_launch_if_possible)
  show "fifo (q\<lparr>heap := heap q @ [\<lparr>urls = u, opts = c, out_dir = d, state = Queued, worker = None\<rparr>],
          pending := pending q @ [length (heap q)]\<rparr>)"
    using assms unfolding fifo_def
    by (auto simp: sorted_wrt_append less_Suc_eq)
qed

lemma fifo_pending_update:
  assumes "fifo q" "ps = pending q \<or> (\<exists>y. ps = remove1 y (pending q))"
  shows "fifo (q\<lparr>pending := ps\<rparr>)"
proof -
  have "sorted_wrt (<) ps" "set ps \<subseteq> set (pending q)"
    using assms set_remove1_subset by (auto simp: fifo_def sorted_wrt_append sorted_wrt_remove1)
  then show ?thesis using assms(1) unfolding fifo_def
    by (auto simp: sorted_wrt_append)
qed

lemma fifo_cong:
  assumes "fifo q" "pending q' = pending q" "started (out q') = started (out q)"
    "length (heap q') = length (heap q)"
  shows "fifo q'"
  using assms by (simp add: fifo_def)

lemma pending_cancel:
  "pending (cancel idx q) = pending q \<or> (\<exists>y. pending (cancel idx q) = remove1 y (pending q))"
  by (auto simp: cancel_def Let_def other_set_state split: job_state.splits option.splits
      dest: py_remove_Some)

lemma started_cancel: "started (out (cancel idx q)) = started (out q)"
  by (auto simp: cancel_def Let_def other_set_state started_append
      split: job_state.splits option.splits)

lemma fifo_cancel:
  assumes "fifo q"
  shows "fifo (cancel idx q)"
proof -
  have "fifo (q\<lparr>pending := pending (cancel idx q)\<rparr>)"
    using assms pending_cancel by (rule fifo_pending_update)
  then show ?thesis
    by (rule fifo_cong) (simp_all add: started_cancel fields_cancel)
qed

lemma started_notify_tracked: "started (out (notify_tracked j q)) = started (out q)"
  by (simp add: notify_tracked_def started_append)

lemma fifo_handle_status: "fifo q \<Longrightarrow> fifo (handle_status j txt q)"
proof (erule fifo_cong)
  show "started (out (handle_status j txt q)) = started (out q)"
    by (simp add: handle_status_def started_notify_tracked started_append other_set_state)
qed (simp_all add: fields_handle_status)

lemma started_finish_head: "started (out (finish_head j q)) = started (out q)"
  by (auto simp: finish_head_def mark_done_def Let_def started_notify_tracked other_set_state
      split: option.splits)

lemma fifo_on_finished:
  assumes "fifo q"
  shows "fifo (on_finished j q)"
proof -
  have f: "fifo (finish_head j q)"
    using assms by (rule fifo_cong) (simp_all add: fields_finish_head started_finish_head)
  then have "fifo (emit QueueEmpty (finish_head j q))"
    by (rule fifo_cong) (simp_all add: started_append)
  then show ?thesis using f by (simp add: on_finished_unfold fifo_launch_if_possible)
qed

lemma fifo_step: "fifo q \<Longrightarrow> fifo (step q x)"
proof (cases x)
  case (SetMaxParallel n)
  assume "fifo q"
  then show ?thesis unfolding SetMaxParallel step.simps by (rule fifo_cong) simp_all
next
  case (WorkerLog j t)
  assume "fifo q"
  then have "fifo (emit (Message t) q)" by (rule fifo_cong) (simp_all add: started_append)
  then show ?thesis using \<open>fifo q\<close> by (simp add: WorkerLog)
qed (simp_all add: fifo_enqueue fifo_cancel fifo_handle_status fifo_on_finished)

lemma fifo_foldl: "fifo q \<Longrightarrow> fifo (foldl step q xs)"
  by (induction xs arbitrary: q) (simp_all add: fifo_step)

lemma worker_cancel: "worker (heap (cancel idx q) ! i) = worker (heap q ! i)"
  by (auto simp: cancel_def Let_def worker_set_state split: job_state.splits option.splits)

lemma launched_cancel: "launched (cancel idx q) i = launched q i"
  by (simp add: launched_def worker_cancel fields_cancel)

lemma launched_emit: "launched (emit e q) i = launched q i"
  by (simp add: launched_def)

lemma launched_handle_status: "launched (handle_status j t q) i = launched q i"
  by (simp add: handle_status_def launched_notify launched_emit launched_set_state)

lemma worker_finish_head: "worker (heap (finish_head j q) ! i) = worker (heap q ! i)"
  by (auto simp: finish_head_def mark_done_def Let_def worker_set_state split: option.splits)

lemma launched_finish_head: "launched (finish_head j q) i = launched q i"
  by (simp add: launched_def worker_finish_head fields_finish_head)

lemma log_ok_cong:
  assumes "log_ok q" "started (out q') = started (out q)" "\<And>i. launched q' i = launched q i"
  shows "log_ok q'"
  using assms by (simp add: log_ok_def)

lemma log_ok_launch_one:
  assumes "wf q" "log_ok q" "pending q \<noteq> []"
  shows "log_ok (launch_one q)"
proof -
  obtain j ps where p: "pending q = j # ps" using assms(3) by (cases "pending q") auto
  have j: "j < length (heap q)" using assms(1) p by (simp add: wf_def)
  have "launched (launch_one q) i \<longleftrightarrow> i = j \<or> launched q i" for i
    using j p by (cases "i = j") (auto simp: launched_def launch_one_def Let_def)
  then show ?thesis
    using assms(2) launch_one_effect(3)[OF p] by (auto simp: log_ok_def)
qed

lemma log_ok_launch_if_possible:
  assumes "wf q" "log_ok q"
  shows "log_ok (launch_if_possible q)"
proof -
  have "wf (launch_if_possible q) \<and> log_ok (launch_if_possible q)"
    by (rule launch_if_possible_rule[where P = "\<lambda>q. wf q \<and> log_ok q"])
       (use assms in \<open>auto intro: wf_launch_one log_ok_launch_one\<close>)
  then show ?thesis ..
qed

lemma log_ok_enqueue:
  assumes "wf q" "log_ok q"
  shows "log_ok (enqueue u c d q)"
proof -
  let ?q = "q\<lparr>heap := heap q @ [\<lparr>urls = u, opts = c, out_dir = d, state = Queued, worker = None\<rparr>],
          pending := pending q @ [length (heap q)]\<rparr>"
  have w: "wf ?q"
    using assms(1) unfolding wf_def by (auto simp: nth_append less_Suc_eq)
  have "launched ?q i = launched q i" for i
    by (auto simp: launched_def nth_append less_Suc_eq)
  then have "log_ok ?q" using assms(2) by (simp add: log_ok_def)
  then show ?thesis unfolding enqueue_def using w by (simp add: log_ok_launch_if_possible)
qed

lemma wf_mark_done: "wf q \<Longrightarrow> wf (mark_done j q)"
  by (simp add: mark_done_def wf_set_state)

lemma launched_mark_done: "launched (mark_done j q) i = launched q i"
  by (simp add: mark_done_def launched_set_state)

lemma fields_mark_done:
  "pending (mark_done j q) = pending q" "running (mark_done j q) = running q"
  "out (mark_done j q) = out q" "max_parallel (mark_done j q) = max_parallel q"
  by (simp_all add: mark_done_def other_set_state)

lemma state_mark_done:
  assumes "j < length (heap q)"
  shows "state (heap (mark_done j q) ! j) =
     (if state (heap q ! j) = Error \<or> state (heap q ! j) = Cancelled
      then state (heap q ! j) else Done)"
  using assms by (simp add: mark_done_def state_set_state)

text \<open>In a well-formed state the completion handler removes the finished job itself.\<close>

lemma finish_head_exact:
  assumes "wf q" "launched q j"
  shows "finish_head j q = (notify_tracked j (mark_done j q))\<lparr>running := remove1 j (running q)\<rparr>"
proof -
  define q2 where "q2 = notify_tracked j (mark_done j q)"
  have w2: "wf q2" using assms(1) by (simp add: q2_def wf_notify_tracked wf_mark_done)
  have l2: "launched q2 j" using assms(2) by (simp add: q2_def launched_notify launched_mark_done)
  have r2: "running q2 = running q" by (simp add: q2_def fields_mark_done)
  have ex: "\<forall>y \<in> set (running q2). job_eq (heap q2) y j \<longrightarrow> y = j"
    using wf_running_eq[OF w2 l2] by blast
  have fh: "finish_head j q = (if py_in (heap q2) j (running q2)
         then (case py_remove (heap q2) j (running q2) of
                 None \<Rightarrow> q2 | Some rs \<Rightarrow> q2\<lparr>running := rs\<rparr>)
         else q2)"
    unfolding finish_head_def q2_def Let_def by (rule refl)
  show ?thesis
  proof (cases "j \<in> set (running q2)")
    case True
    then show ?thesis
      using py_in_exact[OF ex] py_remove_exact[OF ex True] r2
      unfolding fh q2_def[symmetric] by simp
  next
    case False
    then have "remove1 j (running q) = running q2" using r2 by (simp add: remove1_idem)
    then show ?thesis
      using py_in_exact[OF ex] False unfolding fh q2_def[symmetric] by simp
  qed
qed

lemma wf_finish_head:
  assumes "wf q"
  shows "wf (finish_head j q)"
proof -
  define q2 where "q2 = notify_tracked j (mark_done j q)"
  have w2: "wf q2" using assms(1) by (simp add: q2_def wf_notify_tracked wf_mark_done)
  have fh: "finish_head j q = (if py_in (heap q2) j (running q2)
         then (case py_remove (heap q2) j (running q2) of
                 None \<Rightarrow> q2 | Some rs \<Rightarrow> q2\<lparr>running := rs\<rparr>)
         else q2)"
    unfolding finish_head_def q2_def Let_def by (rule refl)
  show ?thesis
  proof (cases "py_remove (heap q2) j (running q2)")
    case None
    then show ?thesis using w2 by (simp add: fh)
  next
    case (Some rs)
    then obtain y where "rs = remove1 y (running q2)" using py_remove_Some by blast
    then have "set rs \<subseteq> set (running q2)" "distinct rs"
      using w2 by (auto simp: wf_def set_remove1_subset)
    then show ?thesis using Some w2 by (simp add: fh wf_running_update)
  qed
qed

lemma log_ok_on_finished:
  assumes "wf q" "log_ok q"
  shows "log_ok (on_finished j q)"
proof -
  have l: "log_ok (finish_head j q)"
    using assms(2) by (rule log_ok_cong) (simp_all add: started_finish_head launched_finish_head)
  then have "log_ok (emit QueueEmpty (finish_head j q))"
    by (rule log_ok_cong) (simp_all add: started_append launched_emit)
  then show ?thesis
    using l assms(1) by (simp add: on_finished_unfold log_ok_launch_if_possible wf_finish_head)
qed

lemma log_ok_step:
  assumes "wf q" "log_ok q"
  shows "log_ok (step q x)"
proof (cases x)
  case (Enqueue u c d)
  then show ?thesis using assms by (simp add: log_ok_enqueue)
next
  case (Cancel idx)
  have "log_ok (cancel idx q)"
    using assms(2) by (rule log_ok_cong) (simp_all add: started_cancel launched_cancel)
  then show ?thesis by (simp add: Cancel)
next
  case (SetMaxParallel n)
  have "log_ok (q\<lparr>max_parallel := n\<rparr>)"
    using assms(2) by (rule log_ok_cong) (simp_all add: launched_def)
  then show ?thesis by (simp add: SetMaxParallel)
next
  case (WorkerLog j t)
  have "log_ok (emit (Message t) q)"
    using assms(2) by (rule log_ok_cong) (simp_all add: started_append launched_emit)
  then show ?thesis using assms(2) by (simp add: WorkerLog)
next
  case (WorkerStatus j t)
  have "started (out (handle_status j t q)) = started (out q)"
    by (simp add: handle_status_def started_notify_tracked started_append other_set_state)
  with assms(2) have "log_ok (handle_status j t q)"
    by (rule log_ok_cong) (simp add: launched_handle_status)
  then show ?thesis using assms(2) by (simp add: WorkerStatus)
next
  case (WorkerFinished j)
  then show ?thesis using assms by (simp add: log_ok_on_finished)
qed

lemma wf_log_ok_foldl: "wf q \<Longrightarrow> log_ok q \<Longrightarrow> wf (foldl step q xs) \<and> log_ok (foldl step q xs)"
  by (induction xs arbitrary: q) (simp_all add: wf_step log_ok_step)

lemma log_ok_run_ops: "log_ok (run_ops mp xs)"
proof -
  have "log_ok (init mp :: 'a job_queue)" by (simp add: log_ok_def init_def launched_def)
  then show ?thesis unfolding run_ops_def using wf_log_ok_foldl[OF wf_init] by blast
qed

lemma count_notify_tracked:
  "count_list (out (notify_tracked j q)) QueueEmpty = count_list (out q) QueueEmpty"
  by (simp add: notify_tracked_def)

lemma wf_pendingD:
  "wf q \<Longrightarrow> j \<in> set (pending q) \<Longrightarrow> j < length (heap q) \<and> worker (heap q ! j) = None"
  by (simp add: wf_def)

lemma on_finished_effect:
  assumes "wf q" "launched q j"
  defines "mid \<equiv> (notify_tracked j (mark_done j q))\<lparr>running := remove1 j (running q)\<rparr>"
  shows "state (heap (on_finished j q) ! j) =
           (if state (heap q ! j) = Error \<or> state (heap q ! j) = Cancelled
            then state (heap q ! j) else Done)"
    and "j \<notin> set (running (on_finished j q))"
    and "pending q = [] \<and> remove1 j (running q) = [] \<Longrightarrow>
           on_finished j q = emit QueueEmpty mid \<and>
           count_list (out (on_finished j q)) QueueEmpty = count_list (out q) QueueEmpty + 1"
    and "\<not> (pending q = [] \<and> remove1 j (running q) = []) \<Longrightarrow>
           on_finished j q = launch_if_possible mid \<and>
           count_list (out (on_finished j q)) QueueEmpty = count_list (out q) QueueEmpty"
proof -
  have fh: "finish_head j q = mid" unfolding mid_def using assms(1,2) by (rule finish_head_exact)
  have jl: "j < length (heap q)" "worker (heap q ! j) \<noteq> None"
    using assms(2) by (simp_all add: launched_def)
  have jp: "j \<notin> set (pending q)" using wf_pendingD[OF assms(1), of j] jl by auto
  have dr: "distinct (running q)" using assms(1) by (simp add: wf_def)
  have mid: "pending mid = pending q" "running mid = remove1 j (running q)"
    "heap mid = heap (mark_done j q)"
    "count_list (out mid) QueueEmpty = count_list (out q) QueueEmpty"
    by (simp_all add: mid_def fields_mark_done count_notify_tracked)
  have st: "state (heap mid ! j) =
           (if state (heap q ! j) = Error \<or> state (heap q ! j) = Cancelled
            then state (heap q ! j) else Done)"
    using jl(1) by (simp add: mid(3) state_mark_done)
  have jr: "j \<notin> set (running mid)" using dr by (simp add: mid(2))
  obtain k where k: "running (launch_if_possible mid) = running mid @ take k (pending mid)"
    "count_list (out (launch_if_possible mid)) QueueEmpty = count_list (out mid) QueueEmpty"
    "\<forall>i. i \<notin> set (take k (pending mid)) \<longrightarrow> heap (launch_if_possible mid) ! i = heap mid ! i"
    using launch_if_possible_effect[of mid] unfolding launch_rel_def by blast
  have jk: "j \<notin> set (take k (pending mid))" using jp mid(1) by (auto dest: in_set_takeD)
  have l1: "state (heap (launch_if_possible mid) ! j) = state (heap mid ! j)"
    using k(3) jk by simp
  have l2: "j \<notin> set (running (launch_if_possible mid))" using k(1) jk jr by simp
  show "state (heap (on_finished j q) ! j) =
           (if state (heap q ! j) = Error \<or> state (heap q ! j) = Cancelled
            then state (heap q ! j) else Done)"
    unfolding on_finished_unfold fh using st l1 by simp
  show "j \<notin> set (running (on_finished j q))"
    unfolding on_finished_unfold fh using jr l2 by simp
  show "pending q = [] \<and> remove1 j (running q) = [] \<Longrightarrow>
           on_finished j q = emit QueueEmpty mid \<and>
           count_list (out (on_finished j q)) QueueEmpty = count_list (out q) QueueEmpty + 1"
    unfolding on_finished_unfold fh using mid by simp
  show "\<not> (pending q = [] \<and> remove1 j (running q) = []) \<Longrightarrow>
           on_finished j q = launch_if_possible mid \<and>
           count_list (out (on_finished j q)) QueueEmpty = count_list (out q) QueueEmpty"
    unfolding on_finished_unfold fh using mid k(2) by auto
qed

section \<open>The claims\<close>

lemmas run_defs =
  run_ops_def init_def enqueue_def cancel_def on_finished_def handle_status_def
  launch_if_possible.simps launch_one_def emit_def set_state_def jobs_def
  notify_tracked_def py_in_def py_index_def job_eq_def launched_def Let_def

text \<open>
  C1. With a fixed positive \<open>max_parallel\<close> (a run without assignments to the limit), after
  every prefix of every sequence of enqueue, cancel and worker-event operations the
  running list holds at most \<open>max_parallel\<close> jobs.
\<close>

theorem running_within_max_parallel:
  assumes "0 < mp" and "\<forall>x \<in> set ops. \<not> is_set_max x"
  shows "int (length (running (run_ops mp (take k ops)))) \<le> mp"
proof -
  have fixed: "\<forall>x \<in> set (take k ops). \<not> is_set_max x"
    using assms(2) by (auto dest: in_set_takeD)
  have "within_cap (init mp :: 'a job_queue)"
    using assms(1) by (simp add: within_cap_def init_def)
  then have "within_cap (foldl step (init mp) (take k ops))"
    using fixed_foldl[OF fixed] by blast
  moreover have "max_parallel (foldl step (init mp :: 'a job_queue) (take k ops)) = mp"
    using fixed_foldl[OF fixed, of "init mp"] by (simp add: init_def)
  ultimately show ?thesis by (simp add: within_cap_def run_ops_def)
qed

theorem running_within_max_parallel_witness:
  "(0::int) < 2 \<and> \<not> list_ex is_set_max busy_ops \<and>
   running (run_ops 2 (take 3 busy_ops)) = [0, 1] \<and>
   int (length (running (run_ops 2 (take 3 busy_ops)))) \<le> 2"
proof -
  have h: "\<forall>x \<in> set busy_ops. \<not> is_set_max x" by (simp add: busy_ops_def)
  have "running (run_ops 2 (take 3 busy_ops)) = [0, 1]"
    by (simp add: busy_ops_def run_defs)
  then show ?thesis
    using running_within_max_parallel[of 2 busy_ops 3] h by (simp add: list_ex_iff)
qed

text \<open>
  What holds of the launch order in every run: the started jobs are increasing in the job
  references, which number the jobs in the order of the \<open>enqueue\<close> calls, and one
  admission pass launches a prefix of the pending sequence, in its order, as long as
  there is room. This speaks of the deque only, not of the states of the jobs in it.
\<close>

lemma launch_takes_pending_prefix:
  "sorted_wrt (<) (started (out (run_ops mp ops))) \<and>
   started (out (launch_if_possible q)) = started (out q) @ take (admitted q) (pending q) \<and>
   running (launch_if_possible q) = running q @ take (admitted q) (pending q) \<and>
   pending (launch_if_possible q) = drop (admitted q) (pending q)"
proof -
  have "fifo (run_ops mp ops)" unfolding run_ops_def by (rule fifo_foldl) (rule fifo_init)
  then have first: "sorted_wrt (<) (started (out (run_ops mp ops)))"
    by (simp add: fifo_def sorted_wrt_append)
  let ?q = "launch_if_possible q"
  obtain k where k: "k \<le> length (pending q)" "pending ?q = drop k (pending q)"
    "running ?q = running q @ take k (pending q)"
    "started (out ?q) = started (out q) @ take k (pending q)"
    "k = 0 \<or> int (length (running q)) + int k \<le> max_parallel q"
    using launch_if_possible_effect[of q] unfolding launch_rel_def by blast
  have "saturated ?q" by (rule saturated_launch_if_possible)
  then have "k = length (pending q) \<or> max_parallel q \<le> int (length (running q)) + int k"
    using k by (auto simp: saturated_def max_parallel_launch_if_possible)
  then have "k = admitted q"
    using k(1,5) by (auto simp: min_def admitted_def)
  then show ?thesis using first k by simp
qed

text \<open>
  C3 at a failing run. With one slot, the same download is enqueued three times: job 0
  runs, jobs 1 and 2 wait in state \<open>Queued\<close>. \<open>cancel 1\<close> addresses job 2 and marks it
  \<open>Cancelled\<close>, but takes job 1 out of the deque. When job 0 finishes, the admission pass
  launches job 2, enqueued last and not \<open>Queued\<close> any more, while job 1, enqueued before
  it and still \<open>Queued\<close>, is not launched: it is in neither list and has no worker.
\<close>

theorem queued_job_is_overtaken:
  "pending (run_ops 1 (take 3 duplicate_ops)) = [1, 2] \<and>
   state (heap (run_ops 1 (take 5 duplicate_ops)) ! 1) = Queued \<and>
   state (heap (run_ops 1 (take 5 duplicate_ops)) ! 2) = Cancelled \<and>
   pending (run_ops 1 (take 5 duplicate_ops)) = [2] \<and>
   started (out (run_ops 1 (take 5 duplicate_ops))) = [0] \<and>
   started (out (run_ops 1 duplicate_ops)) = [0, 2] \<and>
   state (heap (run_ops 1 duplicate_ops) ! 1) = Queued \<and>
   worker (heap (run_ops 1 duplicate_ops) ! 1) = None \<and>
   jobs (run_ops 1 duplicate_ops) = [2]"
  by (simp add: duplicate_ops_def run_defs)

text \<open>
  C10, as the code has it. \<open>cancel\<close> does not run the admission pass. In a run without
  assignments to the limit no pending job is launchable after a \<open>cancel\<close> call all the
  same: either nothing is pending or the running list is full, and an admission pass
  there changes nothing.
\<close>

theorem cancel_leaves_nothing_launchable:
  assumes "\<forall>x \<in> set ops. \<not> is_set_max x"
  shows "(pending (cancel idx (run_ops mp ops)) = [] \<or>
          max_parallel (cancel idx (run_ops mp ops))
            \<le> int (length (running (cancel idx (run_ops mp ops))))) \<and>
         launch_if_possible (cancel idx (run_ops mp ops)) = cancel idx (run_ops mp ops)"
proof -
  have "saturated (init mp :: 'a job_queue)" by (simp add: saturated_def init_def)
  then have "saturated (run_ops mp ops)"
    using fixed_foldl[OF assms] unfolding run_ops_def by blast
  then have s: "saturated (cancel idx (run_ops mp ops))" by (rule saturated_cancel)
  then have "launch_if_possible (cancel idx (run_ops mp ops)) = cancel idx (run_ops mp ops)"
    by (rule launch_if_possible_saturated)
  then show ?thesis using s by (simp add: saturated_def)
qed

theorem cancel_leaves_nothing_launchable_witness:
  "\<not> list_ex is_set_max (take 3 raised_limit_ops) \<and>
   pending (cancel 1 (run_ops 1 (take 3 raised_limit_ops))) = [1] \<and>
   running (cancel 1 (run_ops 1 (take 3 raised_limit_ops))) = [0] \<and>
   max_parallel (cancel 1 (run_ops 1 (take 3 raised_limit_ops))) = 1 \<and>
   launch_if_possible (cancel 1 (run_ops 1 (take 3 raised_limit_ops)))
     = cancel 1 (run_ops 1 (take 3 raised_limit_ops))"
proof -
  have h: "\<forall>x \<in> set (take 3 raised_limit_ops). \<not> is_set_max x"
    by (simp add: raised_limit_ops_def)
  have "pending (cancel 1 (run_ops 1 (take 3 raised_limit_ops))) = [1]"
    "running (cancel 1 (run_ops 1 (take 3 raised_limit_ops))) = [0]"
    "max_parallel (cancel 1 (run_ops 1 (take 3 raised_limit_ops))) = 1"
    by (simp_all add: raised_limit_ops_def run_defs)
  then show ?thesis
    using cancel_leaves_nothing_launchable[of "take 3 raised_limit_ops" 1 1] h
    by (simp add: list_ex_iff)
qed

text \<open>
  C10, as stated, fails once the limit has been raised: the assignment made by the
  toolbar launches nothing, and the \<open>cancel\<close> call that follows cancels the queued job 2
  and leaves job 1 pending with one of two slots in use. An admission pass would have
  launched job 1.
\<close>

theorem cancel_runs_no_admission_counterexample:
  "state (heap (run_ops 1 raised_limit_ops) ! 2) = Queued \<and>
   state (heap (cancel 1 (run_ops 1 raised_limit_ops)) ! 2) = Cancelled \<and>
   pending (cancel 1 (run_ops 1 raised_limit_ops)) = [1] \<and>
   running (cancel 1 (run_ops 1 raised_limit_ops)) = [0] \<and>
   max_parallel (cancel 1 (run_ops 1 raised_limit_ops)) = 2 \<and>
   running (launch_if_possible (cancel 1 (run_ops 1 raised_limit_ops))) = [0, 1]"
  by (simp add: raised_limit_ops_def run_defs)

text \<open>
  C9. A \<open>cancel\<close> call with an index outside the combined view leaves the whole queue
  state as it is (and the call has no failing path); one that addresses a job in state
  \<open>Done\<close>, \<open>Error\<close> or \<open>Cancelled\<close> changes no job and neither \<open>pending\<close> nor \<open>running\<close>:
  it only emits the update notification.
\<close>

theorem cancel_no_op:
  "(idx < 0 \<or> int (length (jobs q)) \<le> idx \<longrightarrow> cancel idx q = q) \<and>
   (0 \<le> idx \<and> idx < int (length (jobs q)) \<and>
    state (heap q ! (jobs q ! nat idx)) \<in> {Done, Error, Cancelled} \<longrightarrow>
      heap (cancel idx q) = heap q \<and> pending (cancel idx q) = pending q \<and>
      running (cancel idx q) = running q \<and> max_parallel (cancel idx q) = max_parallel q \<and>
      out (cancel idx q) = out q @ [JobUpdated (nat idx)])"
  by (auto simp: cancel_def Let_def split: job_state.splits option.splits)

theorem cancel_no_op_witness:
  "cancel 2 (run_ops 2 busy_ops) = run_ops 2 busy_ops \<and>
   cancel (- 1) (run_ops 2 busy_ops) = run_ops 2 busy_ops \<and>
   jobs (run_ops 2 busy_ops) = [1, 2] \<and>
   state (heap (run_ops 2 busy_ops) ! 1) = Cancelled \<and>
   heap (cancel 0 (run_ops 2 busy_ops)) = heap (run_ops 2 busy_ops) \<and>
   pending (cancel 0 (run_ops 2 busy_ops)) = pending (run_ops 2 busy_ops) \<and>
   running (cancel 0 (run_ops 2 busy_ops)) = running (run_ops 2 busy_ops)"
proof -
  have j: "jobs (run_ops 2 busy_ops) = [1, 2]"
    and s: "state (heap (run_ops 2 busy_ops) ! 1) = Cancelled"
    by (simp_all add: busy_ops_def run_defs)
  show ?thesis
    using cancel_no_op[of 2 "run_ops 2 busy_ops"] cancel_no_op[of "- 1" "run_ops 2 busy_ops"]
      cancel_no_op[of 0 "run_ops 2 busy_ops"] j s
    by simp
qed

text \<open>
  C2 at a failing run. A running job is cancelled, and the status text that its worker
  had already emitted is delivered after that: the job is \<open>Cancelled\<close> after the
  \<open>cancel\<close> call and \<open>Error\<close> after the status event. \<open>handle_status\<close> assigns the state
  whatever it was, where \<open>on_finished\<close> leaves \<open>Error\<close> and \<open>Cancelled\<close> alone.
\<close>

theorem cancelled_job_becomes_error:
  "state (heap (run_ops 1 (take 2 late_status_ops)) ! 0) = Cancelled \<and>
   state (heap (run_ops 1 late_status_ops) ! 0) = Error"
  by (simp add: late_status_ops_def run_defs)

text \<open>
  C5 at a failing run. With one slot, the same download is enqueued three times; the
  first runs and the two others wait, equal in all five fields. Position 1 of the
  combined view is the third job. \<open>cancel 1\<close> marks it \<open>Cancelled\<close>, but the
  \<^verbatim>\<open>remove\<close> call takes the first element equal to it out of the deque, which is the
  second job: the cancelled job stays pending, and it is launched when the first job
  finishes.
\<close>

theorem cancelled_duplicate_is_launched:
  "jobs (run_ops 1 (take 3 duplicate_ops)) = [1, 2, 0] \<and>
   state (heap (run_ops 1 (take 3 duplicate_ops)) ! 2) = Queued \<and>
   state (heap (run_ops 1 (take 4 duplicate_ops)) ! 2) = Cancelled \<and>
   pending (run_ops 1 (take 4 duplicate_ops)) = [2] \<and>
   state (heap (run_ops 1 duplicate_ops) ! 2) = Running \<and>
   started (out (run_ops 1 duplicate_ops)) = [0, 2]"
  by (simp add: duplicate_ops_def run_defs)

text \<open>
  C6, as the code has it. No statement of the queue resets a job's worker reference, so it
  outlives the \<open>Running\<close> state. In every reachable state and for every job: the job has
  a worker reference exactly when its worker has been started; a job in state \<open>Running\<close>
  has one, and a job in state \<open>Queued\<close> has none.
\<close>

theorem worker_reference_kept:
  assumes "j < length (heap (run_ops mp ops))"
  shows "(worker (heap (run_ops mp ops) ! j) \<noteq> None \<longleftrightarrow> j \<in> set (started (out (run_ops mp ops)))) \<and>
         (state (heap (run_ops mp ops) ! j) = Running \<longrightarrow> worker (heap (run_ops mp ops) ! j) \<noteq> None) \<and>
         (state (heap (run_ops mp ops) ! j) = Queued \<longrightarrow> worker (heap (run_ops mp ops) ! j) = None)"
proof -
  have "wf (run_ops mp ops)" by (rule wf_run_ops)
  then have "state (heap (run_ops mp ops) ! j) = Running \<longrightarrow> worker (heap (run_ops mp ops) ! j) \<noteq> None"
    "state (heap (run_ops mp ops) ! j) = Queued \<longrightarrow> worker (heap (run_ops mp ops) ! j) = None"
    using assms unfolding wf_def by blast+
  moreover have "worker (heap (run_ops mp ops) ! j) \<noteq> None \<longleftrightarrow> j \<in> set (started (out (run_ops mp ops)))"
    using log_ok_run_ops[of mp ops] assms by (auto simp: log_ok_def launched_def)
  ultimately show ?thesis by blast
qed

theorem worker_reference_kept_witness:
  "(1::nat) < length (heap (run_ops 2 busy_ops)) \<and>
   worker (heap (run_ops 2 busy_ops) ! 1) = Some 1 \<and>
   1 \<in> set (started (out (run_ops 2 busy_ops))) \<and>
   state (heap (run_ops 2 (take 3 busy_ops)) ! 1) = Running \<and>
   worker (heap (run_ops 2 (take 3 busy_ops)) ! 1) \<noteq> None \<and>
   state (heap (run_ops 2 (take 3 busy_ops)) ! 2) = Queued \<and>
   worker (heap (run_ops 2 (take 3 busy_ops)) ! 2) = None"
proof -
  have a: "(1::nat) < length (heap (run_ops 2 busy_ops))"
    "worker (heap (run_ops 2 busy_ops) ! 1) = Some 1"
    by (simp_all add: busy_ops_def run_defs)
  have b: "(1::nat) < length (heap (run_ops 2 (take 3 busy_ops)))"
    "state (heap (run_ops 2 (take 3 busy_ops)) ! 1) = Running"
    "(2::nat) < length (heap (run_ops 2 (take 3 busy_ops)))"
    "state (heap (run_ops 2 (take 3 busy_ops)) ! 2) = Queued"
    by (simp_all add: busy_ops_def run_defs)
  show ?thesis
    using worker_reference_kept[OF a(1)] worker_reference_kept[OF b(1)]
      worker_reference_kept[OF b(3)] a b
    by auto
qed

text \<open>
  C6, as stated, fails for a job cancelled while it runs: it stays in the running list
  until its worker's thread ends, in state \<open>Cancelled\<close> and with its worker reference.
\<close>

theorem worker_outlives_running_counterexample:
  "jobs (run_ops 1 (take 2 late_status_ops)) = [0] \<and>
   state (heap (run_ops 1 (take 2 late_status_ops)) ! 0) = Cancelled \<and>
   worker (heap (run_ops 1 (take 2 late_status_ops)) ! 0) = Some 0"
  by (simp add: late_status_ops_def run_defs)

text \<open>
  C4. When the worker of a job completes, in any reachable state: the job's state becomes
  \<open>Done\<close> unless it is \<open>Error\<close> or \<open>Cancelled\<close>, which it keeps; the job itself is taken
  out of the running list; if nothing is pending and nothing else runs, the queue state
  is the one after these two steps with exactly one more \<open>QueueEmpty\<close> notification
  emitted; otherwise it is the result of an admission pass from there, and no
  \<open>QueueEmpty\<close> is emitted.
\<close>

theorem worker_completion:
  assumes "launched (run_ops mp ops) j"
  shows "let q = run_ops mp ops; q' = on_finished j q; st = state (heap q ! j);
             mid = (notify_tracked j (mark_done j q))\<lparr>running := remove1 j (running q)\<rparr>
         in state (heap q' ! j) = (if st = Error \<or> st = Cancelled then st else Done) \<and>
            j \<notin> set (running q') \<and>
            (if pending q = [] \<and> remove1 j (running q) = []
             then q' = emit QueueEmpty mid \<and>
                  count_list (out q') QueueEmpty = count_list (out q) QueueEmpty + 1
             else q' = launch_if_possible mid \<and>
                  count_list (out q') QueueEmpty = count_list (out q) QueueEmpty)"
proof -
  note e = on_finished_effect[OF wf_run_ops assms]
  show ?thesis
    unfolding Let_def
  proof (intro conjI)
    show "state (heap (on_finished j (run_ops mp ops)) ! j) =
      (if state (heap (run_ops mp ops) ! j) = Error \<or> state (heap (run_ops mp ops) ! j) = Cancelled
       then state (heap (run_ops mp ops) ! j) else Done)"
      by (rule e(1))
    show "j \<notin> set (running (on_finished j (run_ops mp ops)))" by (rule e(2))
    show "if pending (run_ops mp ops) = [] \<and> remove1 j (running (run_ops mp ops)) = []
      then on_finished j (run_ops mp ops) =
           emit QueueEmpty (notify_tracked j (mark_done j (run_ops mp ops))
             \<lparr>running := remove1 j (running (run_ops mp ops))\<rparr>) \<and>
           count_list (out (on_finished j (run_ops mp ops))) QueueEmpty =
           count_list (out (run_ops mp ops)) QueueEmpty + 1
      else on_finished j (run_ops mp ops) =
           launch_if_possible (notify_tracked j (mark_done j (run_ops mp ops))
             \<lparr>running := remove1 j (running (run_ops mp ops))\<rparr>) \<and>
           count_list (out (on_finished j (run_ops mp ops))) QueueEmpty =
           count_list (out (run_ops mp ops)) QueueEmpty"
    proof (cases "pending (run_ops mp ops) = [] \<and> remove1 j (running (run_ops mp ops)) = []")
      case True
      show ?thesis by (subst if_P[OF True]) (rule e(3)[OF True])
    next
      case False
      show ?thesis by (subst if_not_P[OF False]) (rule e(4)[OF False])
    qed
  qed
qed

theorem worker_completion_witness:
  "launched (run_ops 1 (take 3 drain_ops)) 0 \<and>
   state (heap (run_ops 1 (take 3 drain_ops)) ! 0) = Running \<and>
   pending (run_ops 1 (take 3 drain_ops)) = [Suc 0] \<and>
   state (heap (on_finished 0 (run_ops 1 (take 3 drain_ops))) ! 0) = Done \<and>
   running (on_finished 0 (run_ops 1 (take 3 drain_ops))) = [Suc 0] \<and>
   count_list (out (on_finished 0 (run_ops 1 (take 3 drain_ops)))) QueueEmpty = 0 \<and>
   launched (run_ops 1 drain_ops) (Suc 0) \<and>
   state (heap (run_ops 1 drain_ops) ! Suc 0) = Error \<and>
   pending (run_ops 1 drain_ops) = [] \<and> running (run_ops 1 drain_ops) = [Suc 0] \<and>
   state (heap (on_finished (Suc 0) (run_ops 1 drain_ops)) ! Suc 0) = Error \<and>
   running (on_finished (Suc 0) (run_ops 1 drain_ops)) = [] \<and>
   count_list (out (on_finished (Suc 0) (run_ops 1 drain_ops))) QueueEmpty = Suc 0"
proof -
  have a: "launched (run_ops 1 (take 3 drain_ops)) 0"
    "state (heap (run_ops 1 (take 3 drain_ops)) ! 0) = Running"
    "pending (run_ops 1 (take 3 drain_ops)) = [Suc 0]"
    by (simp_all add: drain_ops_def run_defs)
  have a': "count_list (out (run_ops 1 (take 3 drain_ops))) QueueEmpty = 0"
    by (simp add: drain_ops_def run_defs)
  have b: "launched (run_ops 1 drain_ops) (Suc 0)"
    "state (heap (run_ops 1 drain_ops) ! Suc 0) = Error"
    "pending (run_ops 1 drain_ops) = []" "running (run_ops 1 drain_ops) = [Suc 0]"
    by (simp_all add: drain_ops_def run_defs)
  have b': "count_list (out (run_ops 1 drain_ops)) QueueEmpty = 0"
    by (simp add: drain_ops_def run_defs)
  have c: "running (on_finished 0 (run_ops 1 (take 3 drain_ops))) = [Suc 0]"
    "running (on_finished (Suc 0) (run_ops 1 drain_ops)) = []"
    by (simp_all add: drain_ops_def run_defs)
  note t1 = worker_completion[OF a(1), unfolded Let_def]
  note t2 = worker_completion[OF b(1), unfolded Let_def]
  have n1: "\<not> (pending (run_ops 1 (take 3 drain_ops)) = [] \<and>
     remove1 0 (running (run_ops 1 (take 3 drain_ops))) = [])"
    by (simp add: a(3))
  have y2: "pending (run_ops 1 drain_ops) = [] \<and>
     remove1 (Suc 0) (running (run_ops 1 drain_ops)) = []"
    by (simp add: b(3,4))
  have s1: "state (heap (on_finished 0 (run_ops 1 (take 3 drain_ops))) ! 0) = Done"
    using t1[THEN conjunct1] by (simp add: a(2))
  have s2: "state (heap (on_finished (Suc 0) (run_ops 1 drain_ops)) ! Suc 0) = Error"
    using t2[THEN conjunct1] by (simp add: b(2))
  have c1: "count_list (out (on_finished 0 (run_ops 1 (take 3 drain_ops)))) QueueEmpty = 0"
    using t1[THEN conjunct2, THEN conjunct2, unfolded if_not_P[OF n1], THEN conjunct2]
    by (simp only: a')
  have c2: "count_list (out (on_finished (Suc 0) (run_ops 1 drain_ops))) QueueEmpty = Suc 0"
    using t2[THEN conjunct2, THEN conjunct2, unfolded if_P[OF y2], THEN conjunct2]
    by (simp add: b')
  show ?thesis
    by (intro conjI a b c s1 s2 c1 c2)
qed

section \<open>The claims about the worker\<close>

lemma statuses_append: "statuses (xs @ ys) = statuses xs @ statuses ys"
  by (induction xs rule: statuses.induct) simp_all

lemma statuses_on_call: "statuses (on_call path_name c) = []"
  by (cases c) (simp_all split: option.splits)

lemma statuses_calls: "statuses (concat (map (on_call path_name) calls)) = []"
  by (induction calls) (simp_all add: statuses_append statuses_on_call)

lemmas float_defs =
  hook_pct_def pct_raw_def strip_def is_space_def is_param_def is_digit_def py_float_def
  parse_decimal_def parse_exponent_def digits_val_def to_lower_def

text \<open>
  C7. Whatever the engine called back before: when the download call returns, \<open>run\<close>
  emits the one status \<open>Finished\<close> and no exception leaves it; when the call raises an
  error (an instance of \<^verbatim>\<open>Exception\<close>), \<open>run\<close> emits the one status made of \<open>Error: \<close>
  and the text of the error, and no exception leaves it.
\<close>

theorem run_reports_outcome:
  "statuses (fst (run path_name calls Returns)) = [''Finished''] \<and>
   snd (run path_name calls Returns) = None \<and>
   (is_exception exc \<longrightarrow>
      statuses (fst (run path_name calls (Raises exc))) = [''Error: '' @ text_of exc] \<and>
      snd (run path_name calls (Raises exc)) = None)"
  by (simp add: run_def statuses_append statuses_calls)

theorem run_reports_outcome_witness:
  "is_exception \<lparr>is_exception = True, text_of = ''network unreachable''\<rparr> \<and>
   statuses (fst (run id [LoggerWarning ''slow''] Returns)) = [''Finished''] \<and>
   statuses (fst (run id [LoggerWarning ''slow'']
       (Raises \<lparr>is_exception = True, text_of = ''network unreachable''\<rparr>)))
     = [''Error: network unreachable''] \<and>
   snd (run id [LoggerWarning ''slow'']
       (Raises \<lparr>is_exception = True, text_of = ''network unreachable''\<rparr>)) = None"
  using run_reports_outcome[of id "[LoggerWarning ''slow'']"
      "\<lparr>is_exception = True, text_of = ''network unreachable''\<rparr>"]
  by simp

text \<open>
  C8. A hook call with status \<open>downloading\<close> always emits a progress pair, whatever the
  percent text is. Its number is computed from the text without its percent signs and
  colour sequences and without surrounding blanks: the value \<^verbatim>\<open>float\<close> reads there, and
  \<^verbatim>\<open>0.0\<close> when the text is empty or \<^verbatim>\<open>float\<close> rejects it. The texts \<^verbatim>\<open>abc\<close> and the empty
  text give \<^verbatim>\<open>0.0\<close>, and \<^verbatim>\<open>42%\<close> written in green gives \<^verbatim>\<open>42.0\<close>.
\<close>

theorem hook_percent_never_fails:
  "(status d = Some ''downloading'' \<longrightarrow>
      (\<exists>n. hook path_name d =
         Some (hook_pct (case percent_str d of None \<Rightarrow> [] | Some t \<Rightarrow> t), n))) \<and>
   (strip (pct_raw s) = [] \<or> py_float (strip (pct_raw s)) = None \<longrightarrow>
      hook_pct s = Finite False 0 0) \<and>
   (strip (pct_raw s) \<noteq> [] \<and> py_float (strip (pct_raw s)) = Some v \<longrightarrow> hook_pct s = v) \<and>
   hook_pct ''abc'' = Finite False 0 0 \<and>
   hook_pct '''' = Finite False 0 0 \<and>
   hook_pct (CHR 0x1B # ''[32m42%'' @ CHR 0x1B # ''[0m'') = Finite False 42 0"
proof (intro conjI)
  show "status d = Some ''downloading'' \<longrightarrow>
      (\<exists>n. hook path_name d =
         Some (hook_pct (case percent_str d of None \<Rightarrow> [] | Some t \<Rightarrow> t), n))"
    by (simp add: hook_def)
  show "strip (pct_raw s) = [] \<or> py_float (strip (pct_raw s)) = None \<longrightarrow>
      hook_pct s = Finite False 0 0"
    by (auto simp: hook_pct_def)
  show "strip (pct_raw s) \<noteq> [] \<and> py_float (strip (pct_raw s)) = Some v \<longrightarrow> hook_pct s = v"
    by (simp add: hook_pct_def)
  show "hook_pct ''abc'' = Finite False 0 0" by (simp add: float_defs)
  show "hook_pct '''' = Finite False 0 0" by (simp add: float_defs)
  show "hook_pct (CHR 0x1B # ''[32m42%'' @ CHR 0x1B # ''[0m'') = Finite False 42 0"
    by (simp add: float_defs)
qed

theorem hook_percent_never_fails_witness:
  "py_float (strip (pct_raw ''n/a%'')) = None \<and>
   hook_pct ''n/a%'' = Finite False 0 0 \<and>
   strip (pct_raw '' 12.5% '') = ''12.5'' \<and>
   py_float (strip (pct_raw '' 12.5% '')) = Some (Finite False 125 (- 1)) \<and>
   hook_pct '' 12.5% '' = Finite False 125 (- 1) \<and>
   hook id \<lparr>status = Some ''downloading'', percent_str = None, filename = Some ''a.mp4''\<rparr>
     = Some (Finite False 0 0, ''a.mp4'')"
proof -
  have a: "py_float (strip (pct_raw ''n/a%'')) = None" by (simp add: float_defs)
  have b: "strip (pct_raw '' 12.5% '') = ''12.5''"
    "py_float (strip (pct_raw '' 12.5% '')) = Some (Finite False 125 (- 1))"
    by (simp_all add: float_defs)
  have c: "status \<lparr>status = Some ''downloading'', percent_str = None, filename = Some ''a.mp4''\<rparr>
      = Some ''downloading''"
    by simp
  have d: "hook id \<lparr>status = Some ''downloading'', percent_str = None, filename = Some ''a.mp4''\<rparr>
     = Some (Finite False 0 0, ''a.mp4'')"
    using hook_percent_never_fails[of
        "\<lparr>status = Some ''downloading'', percent_str = None, filename = Some ''a.mp4''\<rparr>" id]
    by (simp add: hook_def)
  show ?thesis
    using hook_percent_never_fails[of _ _ "''n/a%''"]
      hook_percent_never_fails[of _ _ "'' 12.5% ''" "Finite False 125 (- 1)"] a b d
    by simp
qed

end
